theory Spec2Isabelle
  imports Complex_Main "HOL-Library.Log_Nat"
begin

section \<open>Python numbers: integers and binary64 floats\<close>

text \<open>
  The notebook computes on Python \<open>int\<close> literals and on the \<open>float\<close>s that
  \<open>math.sqrt\<close> and \<open>/\<close> produce from them. A Python \<open>float\<close> is an IEEE 754
  binary64 number: 53 significant bits, exponents from \<open>-1022\<close> to \<open>1023\<close>,
  subnormals below, round-to-nearest with ties to even. A finite float is modelled by the
  rational number it denotes; the two signed zeros are identified (no operation of the
  notebook tells them apart: dividing by either raises, the square root of either is zero).
\<close>

datatype pyerr = ZeroDivisionError | ValueError | OverflowError

datatype pyfloat = Finite rat | PosInf | NegInf | NaN

definition ilog2 :: "rat \<Rightarrow> int" where
  \<comment> \<open>\<open>\<lfloor>log\<^sub>2 a\<rfloor>\<close> for \<open>a > 0\<close>, from the bit lengths of numerator and denominator\<close>
  "ilog2 a =
     (let k = bitlen (fst (quotient_of a)) - bitlen (snd (quotient_of a))
      in if a < 2 powi k then k - 1 else k)"

definition round_half_even :: "rat \<Rightarrow> int" where
  "round_half_even x =
     (let f = \<lfloor>x\<rfloor>; d = x - of_int f
      in if d < 1 / 2 then f
         else if 1 / 2 < d then f + 1
         else if even f then f else f + 1)"

definition round_double :: "rat \<Rightarrow> pyfloat" where
  \<comment> \<open>the binary64 value nearest to \<open>q\<close>: the quantum is \<open>2\<^sup>e\<^sup>-\<^sup>5\<^sup>2\<close> with \<open>e\<close> the
      exponent of \<open>q\<close>, not below \<open>-1022\<close> (subnormals); a result of \<open>2\<^sup>1\<^sup>0\<^sup>2\<^sup>4\<close> or more
      is an infinity\<close>
  "round_double q =
     (if q = 0 then Finite 0
      else let a = \<bar>q\<bar>;
               e = max (ilog2 a) (- 1022);
               u = 2 powi (e - 52);
               r = of_int (round_half_even (a / u)) * u
           in if 2 ^ 1024 \<le> r then (if q < 0 then NegInf else PosInf)
              else Finite (if q < 0 then - r else r))"

definition float_literal :: "rat \<Rightarrow> pyfloat" where
  \<comment> \<open>a decimal literal of the source denotes the nearest binary64 value\<close>
  "float_literal q = round_double q"

definition int_to_float :: "int \<Rightarrow> pyerr + pyfloat" where
  \<comment> \<open>the implicit conversion of an \<open>int\<close> operand: correctly rounded,
      \<open>OverflowError\<close> ("int too large to convert to float") beyond the float range\<close>
  "int_to_float i =
     (case round_double (of_int i) of
        Finite x \<Rightarrow> Inr (Finite x)
      | _ \<Rightarrow> Inl OverflowError)"

function isqrt :: "int \<Rightarrow> int" where
  \<comment> \<open>\<open>\<lfloor>\<surd>n\<rfloor>\<close>, two bits of \<open>n\<close> at a time\<close>
  "isqrt n =
     (if n < 1 then 0
      else let s = 2 * isqrt (n div 4)
           in if (s + 1) * (s + 1) \<le> n then s + 1 else s)"
  by pat_completeness auto

termination isqrt
  by (relation "measure nat") auto

declare isqrt.simps [simp del]

definition sqrt_double :: "rat \<Rightarrow> rat" where
  \<comment> \<open>the correctly rounded square root of a float \<open>x \<ge> 0\<close>, which is what the C
      library's \<open>sqrt\<close> behind \<open>math.sqrt\<close> returns under IEEE 754: with \<open>u\<close> the quantum
      of the result, \<open>y = x / u\<^sup>2\<close> is an integer for every float \<open>x\<close>, so \<open>\<surd>y\<close> is
      never half-way between two integers\<close>
  "sqrt_double x =
     (if x = 0 then 0
      else let e = ilog2 x div 2;
               u = 2 powi (e - 52);
               y = x / (u * u);
               s = isqrt \<lfloor>y\<rfloor>;
               m = (if y < (of_int s + 1 / 2) * (of_int s + 1 / 2) then s else s + 1)
           in of_int m * u)"

fun float_sqrt :: "pyfloat \<Rightarrow> pyerr + pyfloat" where
  \<comment> \<open>\<open>math.sqrt\<close> on a float: \<open>ValueError\<close> ("math domain error") below zero\<close>
  "float_sqrt (Finite x) = (if x < 0 then Inl ValueError else Inr (Finite (sqrt_double x)))"
| "float_sqrt PosInf = Inr PosInf"
| "float_sqrt NegInf = Inl ValueError"
| "float_sqrt NaN = Inr NaN"

definition math_sqrt :: "int \<Rightarrow> pyerr + pyfloat" where
  \<comment> \<open>\<open>sqrt(n)\<close> with \<open>n\<close> an \<open>int\<close>: the argument is converted first\<close>
  "math_sqrt n = (case int_to_float n of Inl e \<Rightarrow> Inl e | Inr x \<Rightarrow> float_sqrt x)"

fun float_truediv :: "pyfloat \<Rightarrow> pyfloat \<Rightarrow> pyerr + pyfloat" where
  \<comment> \<open>\<open>a / b\<close> on floats: a zero divisor raises, whatever the dividend; everything else
      is the IEEE quotient, overflow giving an infinity without an exception\<close>
  "float_truediv a (Finite y) =
     (if y = 0 then Inl ZeroDivisionError
      else case a of
             Finite x \<Rightarrow> Inr (round_double (x / y))
           | PosInf \<Rightarrow> Inr (if 0 < y then PosInf else NegInf)
           | NegInf \<Rightarrow> Inr (if 0 < y then NegInf else PosInf)
           | NaN \<Rightarrow> Inr NaN)"
| "float_truediv (Finite x) PosInf = Inr (Finite 0)"
| "float_truediv (Finite x) NegInf = Inr (Finite 0)"
| "float_truediv a b = Inr NaN"

definition int_truediv_float :: "int \<Rightarrow> pyfloat \<Rightarrow> pyerr + pyfloat" where
  \<comment> \<open>\<open>i / b\<close> with \<open>i\<close> an \<open>int\<close> and \<open>b\<close> a float: the \<open>int\<close> is converted
      before the divisor is tested\<close>
  "int_truediv_float i b =
     (case int_to_float i of Inl e \<Rightarrow> Inl e | Inr a \<Rightarrow> float_truediv a b)"

fun float_sub :: "pyfloat \<Rightarrow> pyfloat \<Rightarrow> pyfloat" where
  "float_sub (Finite x) (Finite y) = round_double (x - y)"
| "float_sub NaN b = NaN"
| "float_sub a NaN = NaN"
| "float_sub PosInf PosInf = NaN"
| "float_sub NegInf NegInf = NaN"
| "float_sub PosInf b = PosInf"
| "float_sub NegInf b = NegInf"
| "float_sub (Finite x) PosInf = NegInf"
| "float_sub (Finite x) NegInf = PosInf"

section \<open>The notebook\<close>

subsection \<open>Step 3: the test statistic\<close>

text \<open>
  \<^verbatim>\<open>z = (x_bar - mu)/(sigma/sqrt(n))\<close> as a function of the four names it reads, all
  of them \<open>int\<close>s in the notebook. The subtraction is exact integer arithmetic; Python
  evaluates \<open>sqrt(n)\<close>, then the inner quotient, then the outer one, and the first
  exception ends the evaluation.
\<close>

definition z_stat :: "int \<Rightarrow> int \<Rightarrow> int \<Rightarrow> int \<Rightarrow> pyerr + pyfloat" where
  "z_stat x_bar mu sigma n =
     (case math_sqrt n of
        Inl e \<Rightarrow> Inl e
      | Inr s \<Rightarrow>
          (case int_truediv_float sigma s of
             Inl e \<Rightarrow> Inl e
           | Inr d \<Rightarrow> int_truediv_float (x_bar - mu) d))"

text \<open>The values the notebook binds (prefixed \<open>nb_\<close>: the bare names are variables here).\<close>

definition nb_x_bar :: int where "nb_x_bar = 103"
definition nb_n :: int where "nb_n = 40"
definition nb_sigma :: int where "nb_sigma = 16"
definition nb_mu :: int where "nb_mu = 100"

definition nb_z :: "pyerr + pyfloat" where
  "nb_z = z_stat nb_x_bar nb_mu nb_sigma nb_n"

subsection \<open>The plot of the test statistic\<close>






subsection \<open>Step 4: the p-value\<close>


section \<open>Facts about the float model\<close>

subsection \<open>The binary exponent\<close>

lemma powi_nat: "0 \<le> k \<Longrightarrow> (2::rat) powi k = 2 ^ nat k"
  by (simp add: power_int_def)

lemma powi_less_cancel: "(2::rat) powi m < 2 powi n \<Longrightarrow> m < n"
  using power_int_increasing [of n m "2::rat"] by (cases "m < n") auto

lemma ilog2_bounds:
  assumes "0 < a"
  shows "2 powi (ilog2 a) \<le> a" and "a < 2 powi (ilog2 a + 1)"
proof -
  define p where "p = fst (quotient_of a)"
  define d where "d = snd (quotient_of a)"
  have d: "0 < d" by (simp add: d_def quotient_of_denom_pos')
  have a: "a = of_int p / of_int d"
    by (simp add: p_def d_def quotient_of_div)
  have p: "0 < p" using assms d a by (simp add: zero_less_divide_iff)
  define lp where "lp = bitlen p"
  define ld where "ld = bitlen d"
  have lp1: "1 \<le> lp"
    using p bitlen_eq_zero_iff [of p] bitlen_nonneg [of p] by (simp add: lp_def)
  have ld1: "1 \<le> ld"
    using d bitlen_eq_zero_iff [of d] bitlen_nonneg [of d] by (simp add: ld_def)
  have bp: "2 ^ nat (lp - 1) \<le> p" "p < 2 ^ nat lp"
    using bitlen_bounds [OF p] by (simp_all add: lp_def)
  have bd: "2 ^ nat (ld - 1) \<le> d" "d < 2 ^ nat ld"
    using bitlen_bounds [OF d] by (simp_all add: ld_def)
  have rp: "(2::rat) powi (lp - 1) \<le> of_int p" "(of_int p :: rat) < 2 powi lp"
  proof -
    have "(of_int (2 ^ nat (lp - 1)) :: rat) \<le> of_int p"
      using bp(1) by (simp only: of_int_le_iff)
    then show "(2::rat) powi (lp - 1) \<le> of_int p"
      using lp1 by (simp add: powi_nat)
    have "(of_int p :: rat) < of_int (2 ^ nat lp)"
      using bp(2) by (simp only: of_int_less_iff)
    then show "(of_int p :: rat) < 2 powi lp"
      using lp1 by (simp add: powi_nat)
  qed
  have rd: "(2::rat) powi (ld - 1) \<le> of_int d" "(of_int d :: rat) < 2 powi ld"
  proof -
    have "(of_int (2 ^ nat (ld - 1)) :: rat) \<le> of_int d"
      using bd(1) by (simp only: of_int_le_iff)
    then show "(2::rat) powi (ld - 1) \<le> of_int d"
      using ld1 by (simp add: powi_nat)
    have "(of_int d :: rat) < of_int (2 ^ nat ld)"
      using bd(2) by (simp only: of_int_less_iff)
    then show "(of_int d :: rat) < 2 powi ld"
      using ld1 by (simp add: powi_nat)
  qed
  have dpos: "(0::rat) < of_int d" using d by simp
  have lo: "2 powi (lp - ld - 1) \<le> a"
  proof -
    have "(2::rat) powi (lp - ld - 1) * of_int d \<le> 2 powi (lp - ld - 1) * 2 powi ld"
      using rd(2) by (intro mult_left_mono) auto
    also have "\<dots> = 2 powi (lp - 1)"
      by (simp flip: power_int_add)
    also have "\<dots> \<le> of_int p" by (rule rp(1))
    finally show ?thesis using dpos by (simp add: a pos_le_divide_eq)
  qed
  have hi: "a < 2 powi (lp - ld + 1)"
  proof -
    have "(of_int p :: rat) < 2 powi lp" by (rule rp(2))
    also have "\<dots> = 2 powi (lp - ld + 1) * 2 powi (ld - 1)"
      by (simp flip: power_int_add)
    also have "\<dots> \<le> 2 powi (lp - ld + 1) * of_int d"
      using rd(1) by (intro mult_left_mono) auto
    finally show ?thesis using dpos by (simp add: a pos_divide_less_eq)
  qed
  have il: "ilog2 a = (if a < 2 powi (lp - ld) then lp - ld - 1 else lp - ld)"
    by (simp add: ilog2_def Let_def lp_def ld_def p_def d_def)
  show "2 powi (ilog2 a) \<le> a" using lo by (simp add: il)
  show "a < 2 powi (ilog2 a + 1)" using hi by (simp add: il)
qed

lemma ilog2_eqI:
  assumes "2 powi e \<le> a" and "a < 2 powi (e + 1)"
  shows "ilog2 a = e"
proof -
  have "0 < (2::rat) powi e" by simp
  then have pos: "0 < a" using assms(1) by linarith
  note b = ilog2_bounds [OF pos]
  have "(2::rat) powi (ilog2 a) < 2 powi (e + 1)" using b(1) assms(2) by linarith
  then have 1: "ilog2 a < e + 1" by (rule powi_less_cancel)
  have "(2::rat) powi e < 2 powi (ilog2 a + 1)" using b(2) assms(1) by linarith
  then have 2: "e < ilog2 a + 1" by (rule powi_less_cancel)
  show ?thesis using 1 2 by linarith
qed



subsection \<open>Rounding\<close>





lemma rhe_eqI:
  assumes "of_int m - 1 / 2 < x" and "x < of_int m + 1 / 2"
  shows "round_half_even x = m"
proof (cases "x < of_int m")
  case True
  then have f: "\<lfloor>x\<rfloor> = m - 1" using assms(1) by (simp add: floor_eq_iff)
  show ?thesis using assms(1) by (simp add: round_half_even_def Let_def f)
next
  case False
  then have f: "\<lfloor>x\<rfloor> = m" using assms(2) by (simp add: floor_eq_iff)
  show ?thesis using assms(2) by (simp add: round_half_even_def Let_def f)
qed


lemma round_double_eq:
  assumes "q \<noteq> 0" and "2 powi e \<le> \<bar>q\<bar>" and "\<bar>q\<bar> < 2 powi (e + 1)" and "- 1022 \<le> e"
    and "round_half_even (\<bar>q\<bar> / 2 powi (e - 52)) = m"
    and "of_int m * 2 powi (e - 52) < (2::rat) ^ 1024"
  shows "round_double q =
           Finite (if q < 0 then - (of_int m * 2 powi (e - 52)) else of_int m * 2 powi (e - 52))"
proof -
  have "ilog2 \<bar>q\<bar> = e" using assms(2,3) by (rule ilog2_eqI)
  then have il: "max (ilog2 \<bar>q\<bar>) (- 1022) = e" using assms(4) by simp
  have "round_double q =
          (if (2::rat) ^ 1024 \<le> of_int m * 2 powi (e - 52) then (if q < 0 then NegInf else PosInf)
           else Finite (if q < 0 then - (of_int m * 2 powi (e - 52))
                        else of_int m * 2 powi (e - 52)))"
    unfolding round_double_def Let_def il assms(5) using assms(1) by (simp only: if_False)
  then show ?thesis using assms(6) by (simp only: linorder_not_le [symmetric] if_False)
qed

text \<open>
  How a positive rational is rounded, without running the definition: name the exponent
  \<open>e\<close> and the 53-bit significand \<open>m\<close>, and check that \<open>q\<close> lies within half a quantum.
\<close>

lemma round_double_pos_eqI:
  assumes "2 powi e \<le> q" and "q < 2 powi (e + 1)" and "- 1022 \<le> e"
    and "of_int m - 1 / 2 < q / 2 powi (e - 52)" and "q / 2 powi (e - 52) < of_int m + 1 / 2"
    and "of_int m * 2 powi (e - 52) < (2::rat) ^ 1024"
  shows "round_double q = Finite (of_int m * 2 powi (e - 52))"
proof -
  have "0 < (2::rat) powi e" by simp
  then have pos: "0 < q" using assms(1) by linarith
  then have a: "\<bar>q\<bar> = q" by simp
  have "round_half_even (\<bar>q\<bar> / 2 powi (e - 52)) = m"
    unfolding a using assms(4,5) by (rule rhe_eqI)
  from round_double_eq [OF _ _ _ assms(3) this assms(6)] assms(1,2) pos
  show ?thesis by (simp add: a)
qed




subsection \<open>The square root\<close>

lemma isqrt_bounds:
  "0 \<le> n \<Longrightarrow> 0 \<le> isqrt n \<and> isqrt n * isqrt n \<le> n \<and> n < (isqrt n + 1) * (isqrt n + 1)"
proof (induction n rule: isqrt.induct)
  case (1 n)
  show ?case
  proof (cases "n < 1")
    case True
    with 1(2) show ?thesis by (simp add: isqrt.simps [of n])
  next
    case False
    define q where "q = n div 4"
    define t where "t = isqrt q"
    have q0: "0 \<le> q" using False by (simp add: q_def)
    have ih: "0 \<le> t" "t * t \<le> q" "q < (t + 1) * (t + 1)"
      using 1(1) [OF False] q0 by (simp_all add: q_def t_def)
    have q1: "4 * q \<le> n" "n < 4 * q + 4" by (simp_all add: q_def)
    have lo: "(2 * t) * (2 * t) \<le> n" using ih(2) q1(1) by (simp add: algebra_simps)
    have "q + 1 \<le> (t + 1) * (t + 1)" using ih(3) by linarith
    then have hi: "n < (2 * t + 2) * (2 * t + 2)" using q1(2) by (simp add: algebra_simps)
    have r: "isqrt n = (if (2 * t + 1) * (2 * t + 1) \<le> n then 2 * t + 1 else 2 * t)"
      using False by (simp add: isqrt.simps [of n] Let_def q_def t_def)
    show ?thesis
    proof (cases "(2 * t + 1) * (2 * t + 1) \<le> n")
      case True
      then show ?thesis using ih(1) hi by (simp add: r algebra_simps)
    next
      case False
      then show ?thesis using ih(1) lo by (simp add: r algebra_simps)
    qed
  qed
qed

lemma sq_less_cancel: "(a::rat) * a < b * b \<Longrightarrow> 0 \<le> b \<Longrightarrow> a < b"
  using power2_less_imp_less [of a b] by (simp add: power2_eq_square)

text \<open>
  The same for the square root: \<open>m\<close> is the significand of \<open>sqrt_double x\<close> when
  \<open>x / u\<^sup>2\<close> lies strictly between \<open>(m - 1/2)\<^sup>2\<close> and \<open>(m + 1/2)\<^sup>2\<close>.
\<close>

lemma sqrt_double_eqI:
  assumes "2 powi k \<le> x" and "x < 2 powi (k + 1)" and "1 \<le> m"
    and "(of_int m - 1 / 2) * (of_int m - 1 / 2) < x / (2 powi (k div 2 - 52) * 2 powi (k div 2 - 52))"
    and "x / (2 powi (k div 2 - 52) * 2 powi (k div 2 - 52)) < (of_int m + 1 / 2) * (of_int m + 1 / 2)"
  shows "sqrt_double x = of_int m * 2 powi (k div 2 - 52)"
proof -
  define u :: rat where "u = 2 powi (k div 2 - 52)"
  define y where "y = x / (u * u)"
  define s where "s = isqrt \<lfloor>y\<rfloor>"
  have "0 < (2::rat) powi k" by simp
  then have pos: "0 < x" using assms(1) by linarith
  have il: "ilog2 x = k" using assms(1,2) by (rule ilog2_eqI)
  have u: "0 < u" by (simp add: u_def)
  have y0: "0 < y" using pos u by (simp add: y_def)
  then have f0: "0 \<le> \<lfloor>y\<rfloor>" by simp
  note b = isqrt_bounds [OF f0, folded s_def]
  have s0: "(0::rat) \<le> of_int s" using b by simp
  have "(of_int (s * s) :: rat) \<le> of_int \<lfloor>y\<rfloor>" using b by (simp only: of_int_le_iff)
  then have "of_int s * of_int s \<le> (of_int \<lfloor>y\<rfloor> :: rat)" by simp
  also have "\<dots> \<le> y" by (rule of_int_floor_le)
  finally have lo: "of_int s * of_int s \<le> y" .
  have "\<lfloor>y\<rfloor> + 1 \<le> (s + 1) * (s + 1)" using b by linarith
  then have "(of_int (\<lfloor>y\<rfloor> + 1) :: rat) \<le> of_int ((s + 1) * (s + 1))" by (simp only: of_int_le_iff)
  then have "(of_int (\<lfloor>y\<rfloor> + 1) :: rat) \<le> (of_int s + 1) * (of_int s + 1)" by simp
  moreover have "y < of_int (\<lfloor>y\<rfloor> + 1)" using floor_correct [of y] by linarith
  ultimately have hi: "y < (of_int s + 1) * (of_int s + 1)" by linarith
  have my1: "(of_int m - 1 / 2) * (of_int m - 1 / 2) < y" using assms(4) by (simp add: y_def u_def)
  have my2: "y < (of_int m + 1 / 2) * (of_int m + 1 / 2)" using assms(5) by (simp add: y_def u_def)
  have m1: "(1::rat) \<le> of_int m" using assms(3) by simp
  have sd: "sqrt_double x =
      of_int (if y < (of_int s + 1 / 2) * (of_int s + 1 / 2) then s else s + 1) * u"
    using pos by (simp add: sqrt_double_def Let_def il s_def y_def u_def)
  have "(if y < (of_int s + 1 / 2) * (of_int s + 1 / 2) then s else s + 1) = m"
  proof (cases "y < (of_int s + 1 / 2) * (of_int s + 1 / 2)")
    case True
    have "(of_int s :: rat) * of_int s < (of_int m + 1 / 2) * (of_int m + 1 / 2)"
      using lo my2 by linarith
    from sq_less_cancel [OF this] m1 have "(of_int s :: rat) < of_int m + 1 / 2" by simp
    then have "(of_int s :: rat) < of_int (m + 1)" by simp
    then have 1: "s < m + 1" by (simp only: of_int_less_iff)
    have "((of_int m :: rat) - 1 / 2) * (of_int m - 1 / 2) < (of_int s + 1 / 2) * (of_int s + 1 / 2)"
      using my1 True by linarith
    from sq_less_cancel [OF this] s0 have "(of_int m :: rat) - 1 / 2 < of_int s + 1 / 2" by simp
    then have "(of_int m :: rat) < of_int (s + 1)" by simp
    then have 2: "m < s + 1" by (simp only: of_int_less_iff)
    show ?thesis using True 1 2 by simp
  next
    case False
    then have "((of_int s :: rat) + 1 / 2) * (of_int s + 1 / 2) < (of_int m + 1 / 2) * (of_int m + 1 / 2)"
      using my2 by linarith
    from sq_less_cancel [OF this] m1 have "(of_int s :: rat) + 1 / 2 < of_int m + 1 / 2" by simp
    then have "(of_int s :: rat) < of_int m" by simp
    then have 1: "s < m" by (simp only: of_int_less_iff)
    have "((of_int m :: rat) - 1 / 2) * (of_int m - 1 / 2) < (of_int s + 1) * (of_int s + 1)"
      using my1 hi by linarith
    from sq_less_cancel [OF this] s0 have "(of_int m :: rat) - 1 / 2 < of_int s + 1" by simp
    then have "(of_int m :: rat) < of_int (s + 2)" by simp
    then have 2: "m < s + 2" by (simp only: of_int_less_iff)
    show ?thesis using False 1 2 by simp
  qed
  then show ?thesis by (simp only: sd u_def)
qed


subsection \<open>Distance from the exact values\<close>

text \<open>
  The two rounding functions return what IEEE 754 asks for: a value no further than half a
  quantum from the exact quotient, difference or square root.
\<close>

lemma rhe_error: "\<bar>x - of_int (round_half_even x)\<bar> \<le> 1 / 2"
proof -
  define d where "d = x - of_int \<lfloor>x\<rfloor>"
  have d: "0 \<le> d" "d < 1" unfolding d_def by linarith+
  have x: "x = of_int \<lfloor>x\<rfloor> + d" by (simp add: d_def)
  have r: "round_half_even x =
      (if d < 1 / 2 then \<lfloor>x\<rfloor> else if 1 / 2 < d then \<lfloor>x\<rfloor> + 1
       else if even \<lfloor>x\<rfloor> then \<lfloor>x\<rfloor> else \<lfloor>x\<rfloor> + 1)"
    by (simp add: round_half_even_def Let_def d_def)
  have "\<bar>of_int \<lfloor>x\<rfloor> + d - of_int (round_half_even x)\<bar> \<le> 1 / 2"
    using d by (simp add: r)
  then show ?thesis using x by simp
qed

lemma round_double_error:
  assumes "round_double q = Finite r"
  shows "\<bar>q - r\<bar> \<le> 2 powi (max (ilog2 \<bar>q\<bar>) (- 1022) - 52) / 2"
proof (cases "q = 0")
  case True
  then show ?thesis using assms by (simp add: round_double_def)
next
  case False
  define u :: rat where "u = 2 powi (max (ilog2 \<bar>q\<bar>) (- 1022) - 52)"
  define m where "m = round_half_even (\<bar>q\<bar> / u)"
  have u: "0 < u" by (simp add: u_def)
  have r: "r = (if q < 0 then - (of_int m * u) else of_int m * u)"
    using assms False by (simp add: round_double_def Let_def u_def m_def split: if_splits)
  have "\<bar>\<bar>q\<bar> / u - of_int m\<bar> \<le> 1 / 2" unfolding m_def by (rule rhe_error)
  then have "\<bar>\<bar>q\<bar> / u - of_int m\<bar> * u \<le> 1 / 2 * u"
    using u by (intro mult_right_mono) simp_all
  moreover have "\<bar>\<bar>q\<bar> / u - of_int m\<bar> * u = \<bar>\<bar>q\<bar> - of_int m * u\<bar>"
    using u by (simp add: abs_mult [symmetric] field_simps del: abs_mult)
  ultimately have "\<bar>\<bar>q\<bar> - of_int m * u\<bar> \<le> u / 2" by simp
  then show ?thesis unfolding u_def [symmetric] by (simp add: r abs_if split: if_splits)
qed

lemma real_sq_le_cancel: "(a::real) * a \<le> b * b \<Longrightarrow> 0 \<le> b \<Longrightarrow> a \<le> b"
  using power2_le_imp_le [of a b] by (simp add: power2_eq_square)

lemma real_sq_less_cancel: "(a::real) * a < b * b \<Longrightarrow> 0 \<le> b \<Longrightarrow> a < b"
  using power2_less_imp_less [of a b] by (simp add: power2_eq_square)

lemma sqrt_double_nearest:
  assumes "0 < x"
  shows "\<bar>sqrt (real_of_rat x) - real_of_rat (sqrt_double x)\<bar>
           \<le> real_of_rat (2 powi (ilog2 x div 2 - 52)) / 2"
proof -
  define u :: rat where "u = 2 powi (ilog2 x div 2 - 52)"
  define y where "y = x / (u * u)"
  define s where "s = isqrt \<lfloor>y\<rfloor>"
  define m where "m = (if y < (of_int s + 1 / 2) * (of_int s + 1 / 2) then s else s + 1)"
  define ry where "ry = sqrt (real_of_rat y)"
  define ru where "ru = real_of_rat u"
  have u: "0 < u" by (simp add: u_def)
  have ru: "0 < ru" using u by (simp add: ru_def)
  have y0: "0 < y" using assms u by (simp add: y_def)
  then have f0: "0 \<le> \<lfloor>y\<rfloor>" by simp
  note b = isqrt_bounds [OF f0, folded s_def]
  have s0: "(0::real) \<le> of_int s" using b by simp
  have sd: "sqrt_double x = of_int m * u"
    using assms by (simp add: sqrt_double_def Let_def m_def s_def y_def u_def)
  have "x = y * (u * u)" using u by (simp add: y_def)
  then have "real_of_rat x = real_of_rat y * (ru * ru)" by (simp add: ru_def of_rat_mult)
  then have sx: "sqrt (real_of_rat x) = ry * ru"
    using ru by (simp add: ry_def real_sqrt_mult)
  have ry0: "0 \<le> ry" using y0 by (simp add: ry_def)
  have ry2: "ry * ry = real_of_rat y" using y0 by (simp add: ry_def)
  have lo: "real_of_int s \<le> ry"
  proof -
    have "(of_int (s * s) :: rat) \<le> of_int \<lfloor>y\<rfloor>" using b by (simp only: of_int_le_iff)
    also have "\<dots> \<le> y" by (rule of_int_floor_le)
    finally have "real_of_rat (of_int (s * s)) \<le> real_of_rat y" by (simp only: of_rat_less_eq)
    then have "real_of_int s * real_of_int s \<le> ry * ry" by (simp add: ry2 of_rat_mult)
    then show ?thesis using ry0 by (rule real_sq_le_cancel)
  qed
  have hi: "ry < real_of_int s + 1"
  proof -
    have "\<lfloor>y\<rfloor> + 1 \<le> (s + 1) * (s + 1)" using b by linarith
    then have "(of_int (\<lfloor>y\<rfloor> + 1) :: rat) \<le> of_int ((s + 1) * (s + 1))"
      by (simp only: of_int_le_iff)
    moreover have "y < of_int (\<lfloor>y\<rfloor> + 1)" using floor_correct [of y] by linarith
    ultimately have "y < of_int ((s + 1) * (s + 1))" by linarith
    then have "real_of_rat y < real_of_rat (of_int ((s + 1) * (s + 1)))"
      by (simp only: of_rat_less)
    then have "ry * ry < (real_of_int s + 1) * (real_of_int s + 1)"
      by (simp add: ry2 of_rat_mult of_rat_add)
    from real_sq_less_cancel [OF this] s0 show ?thesis by simp
  qed
  have "\<bar>ry - real_of_int m\<bar> \<le> 1 / 2"
  proof (cases "y < (of_int s + 1 / 2) * (of_int s + 1 / 2)")
    case True
    then have "real_of_rat y < real_of_rat ((of_int s + 1 / 2) * (of_int s + 1 / 2))"
      by (simp only: of_rat_less)
    then have "ry * ry < (real_of_int s + 1 / 2) * (real_of_int s + 1 / 2)"
      by (simp add: ry2 of_rat_mult of_rat_add of_rat_divide)
    from real_sq_less_cancel [OF this] s0 have "ry < real_of_int s + 1 / 2" by simp
    then show ?thesis using lo True by (simp add: m_def)
  next
    case False
    then have "real_of_rat ((of_int s + 1 / 2) * (of_int s + 1 / 2)) \<le> real_of_rat y"
      by (simp only: of_rat_less_eq not_less)
    then have "(real_of_int s + 1 / 2) * (real_of_int s + 1 / 2) \<le> ry * ry"
      by (simp add: ry2 of_rat_mult of_rat_add of_rat_divide)
    from real_sq_le_cancel [OF this ry0] have "real_of_int s + 1 / 2 \<le> ry" .
    then show ?thesis using hi False by (simp add: m_def)
  qed
  then have "\<bar>ry - real_of_int m\<bar> * ru \<le> 1 / 2 * ru"
    using ru by (intro mult_right_mono) simp_all
  moreover have "\<bar>ry * ru - real_of_int m * ru\<bar> = \<bar>ry - real_of_int m\<bar> * ru"
  proof -
    have "\<bar>ry * ru - real_of_int m * ru\<bar> = \<bar>(ry - real_of_int m) * ru\<bar>"
      by (simp add: algebra_simps)
    also have "\<dots> = \<bar>ry - real_of_int m\<bar> * \<bar>ru\<bar>" by (rule abs_mult)
    finally show ?thesis using ru by simp
  qed
  ultimately have "\<bar>ry * ru - real_of_int m * ru\<bar> \<le> ru / 2" by simp
  then show ?thesis
    unfolding u_def [symmetric] by (simp add: sx sd of_rat_mult ru_def)
qed

section \<open>The notebook's values\<close>

subsection \<open>Conversions and literals\<close>

lemma round_double_40: "round_double 40 = Finite 40"
proof -
  have "round_double 40 = Finite (of_int (40 * 2 ^ 47) * 2 powi (5 - 52))"
    by (rule round_double_pos_eqI) simp_all
  then show ?thesis by simp
qed

lemma round_double_16: "round_double 16 = Finite 16"
proof -
  have "round_double 16 = Finite (of_int (16 * 2 ^ 48) * 2 powi (4 - 52))"
    by (rule round_double_pos_eqI) simp_all
  then show ?thesis by simp
qed

lemma round_double_3: "round_double 3 = Finite 3"
proof -
  have "round_double 3 = Finite (of_int (3 * 2 ^ 51) * 2 powi (1 - 52))"
    by (rule round_double_pos_eqI) simp_all
  then show ?thesis by simp
qed

lemma int_to_float_40: "int_to_float 40 = Inr (Finite 40)"
  by (simp add: int_to_float_def round_double_40)

lemma int_to_float_16: "int_to_float 16 = Inr (Finite 16)"
  by (simp add: int_to_float_def round_double_16)


lemma int_to_float_3: "int_to_float 3 = Inr (Finite 3)"
  by (simp add: int_to_float_def round_double_3)

lemma literal_z: "float_literal (11858541225631423 / 10 ^ 16) = Finite (2670306092245567 / 2 ^ 51)"
proof -
  have "round_double (11858541225631423 / 10 ^ 16) =
          Finite (of_int 5340612184491134 * 2 powi (0 - 52))"
    by (rule round_double_pos_eqI) simp_all
  then show ?thesis by (simp add: float_literal_def)
qed



lemma literal_pval:
  "float_literal (11783995671451875 / 10 ^ 17) = Finite (265351992574431 / 2 ^ 51)"
proof -
  have "round_double (11783995671451875 / 10 ^ 17) =
          Finite (of_int 8491263762381792 * 2 powi (- 4 - 52))"
    by (rule round_double_pos_eqI) simp_all
  then show ?thesis by (simp add: float_literal_def)
qed

subsection \<open>The three float operations of step 3\<close>

lemma sqrt_double_40: "sqrt_double 40 = 7120816245988179 / 2 ^ 50"
proof -
  have "sqrt_double 40 = of_int 7120816245988179 * 2 powi (5 div 2 - 52)"
    by (rule sqrt_double_eqI) simp_all
  then show ?thesis by simp
qed

lemma math_sqrt_40: "math_sqrt 40 = Inr (Finite (7120816245988179 / 2 ^ 50))"
  by (simp only: math_sqrt_def int_to_float_40 sum.case float_sqrt.simps sqrt_double_40) simp

lemma round_inner:
  "round_double (16 / (7120816245988179 / 2 ^ 50)) = Finite (5696652996790543 / 2 ^ 51)"
proof -
  have "round_double (16 / (7120816245988179 / 2 ^ 50)) =
          Finite (of_int 5696652996790543 * 2 powi (1 - 52))"
    by (rule round_double_pos_eqI) simp_all
  then show ?thesis by simp
qed

lemma round_outer:
  "round_double (3 / (5696652996790543 / 2 ^ 51)) = Finite (2670306092245567 / 2 ^ 51)"
proof -
  have "round_double (3 / (5696652996790543 / 2 ^ 51)) =
          Finite (of_int 5340612184491134 * 2 powi (0 - 52))"
    by (rule round_double_pos_eqI) simp_all
  then show ?thesis by simp
qed

lemma inner_quotient:
  "int_truediv_float 16 (Finite (7120816245988179 / 2 ^ 50)) =
     Inr (Finite (5696652996790543 / 2 ^ 51))"
proof -
  have "(7120816245988179 / 2 ^ 50 :: rat) \<noteq> 0" by simp
  then show ?thesis
    by (simp only: int_truediv_float_def int_to_float_16 sum.case float_truediv.simps
        if_False pyfloat.case round_inner)
qed

lemma outer_quotient:
  "int_truediv_float 3 (Finite (5696652996790543 / 2 ^ 51)) =
     Inr (Finite (2670306092245567 / 2 ^ 51))"
proof -
  have "(5696652996790543 / 2 ^ 51 :: rat) \<noteq> 0" by simp
  then show ?thesis
    by (simp only: int_truediv_float_def int_to_float_3 sum.case float_truediv.simps
        if_False pyfloat.case round_outer)
qed

lemma z_stat_value: "z_stat 103 100 16 40 = Inr (Finite (2670306092245567 / 2 ^ 51))"
proof -
  have "(103::int) - 100 = 3" by simp
  then show ?thesis
    by (simp only: z_stat_def math_sqrt_40 sum.case inner_quotient outer_quotient)
qed

lemma nb_z_value: "nb_z = Inr (Finite (2670306092245567 / 2 ^ 51))"
  by (simp only: nb_z_def nb_x_bar_def nb_mu_def nb_sigma_def nb_n_def z_stat_value)




text \<open>
  Over the reals the formula gives \<open>3\<surd>40 / 16\<close>; the float computed above is the binary64
  value nearest to it, three roundings notwithstanding.
\<close>

lemma z_real_close:
  "\<bar>2670306092245567 / 2 ^ 51 - (103 - 100) / (16 / sqrt 40)\<bar> < (1 / 2 ^ 53 :: real)"
proof -
  have lo: "(6324555320336758663 / 10 ^ 18) < sqrt (40::real)"
    by (rule real_less_rsqrt) (simp add: power2_eq_square)
  have hi: "sqrt (40::real) < (6324555320336758664 / 10 ^ 18)"
    by (rule real_less_lsqrt) (simp_all add: power2_eq_square)
  show ?thesis using lo hi by (simp add: abs_less_iff field_simps)
qed

lemma pval_subtraction:
  "float_sub (Finite 1) (Finite (1986447821110817 / 2 ^ 51)) = Finite (265351992574431 / 2 ^ 51)"
proof -
  have "round_double (1 - 1986447821110817 / 2 ^ 51) =
          Finite (of_int 8491263762381792 * 2 powi (- 4 - 52))"
    by (rule round_double_pos_eqI) simp_all
  then show ?thesis by simp
qed

section \<open>When the test statistic raises\<close>















section \<open>The claims\<close>

text \<open>
  C1. The z-statistic is \<open>(x_bar - mu) / (sigma / sqrt(n))\<close>, and for the worked example
  \<open>x_bar = 103\<close>, \<open>mu = 100\<close>, \<open>sigma = 16\<close>, \<open>n = 40\<close> the computed \<open>z\<close> equals
  \<open>1.1858541225631423\<close>: the float the notebook computes is the float that this decimal
  literal denotes, and it lies within half a unit in the last place of the value the
  formula has over the real numbers.
\<close>

theorem z_stat_worked_example:
  "nb_z = Inr (float_literal (11858541225631423 / 10 ^ 16)) \<and>
   (\<exists>zv. nb_z = Inr (Finite zv) \<and>
      \<bar>real_of_rat zv -
         (real_of_int nb_x_bar - real_of_int nb_mu) / (real_of_int nb_sigma / sqrt (real_of_int nb_n))\<bar>
        < 1 / 2 ^ 53)"
proof
  show "nb_z = Inr (float_literal (11858541225631423 / 10 ^ 16))"
    by (simp only: nb_z_value literal_z)
  have "\<bar>real_of_rat (2670306092245567 / 2 ^ 51) -
         (real_of_int nb_x_bar - real_of_int nb_mu) / (real_of_int nb_sigma / sqrt (real_of_int nb_n))\<bar>
        < 1 / 2 ^ 53"
    using z_real_close
    by (simp add: nb_x_bar_def nb_mu_def nb_sigma_def nb_n_def of_rat_divide of_rat_power)
  with nb_z_value show "\<exists>zv. nb_z = Inr (Finite zv) \<and>
      \<bar>real_of_rat zv -
         (real_of_int nb_x_bar - real_of_int nb_mu) / (real_of_int nb_sigma / sqrt (real_of_int nb_n))\<bar>
        < 1 / 2 ^ 53"
    by blast
qed










text \<open>
  C10. For the values the notebook binds, every step of the z computation is inside its
  domain: \<open>sqrt\<close> is applied to a number that is not negative, the two divisors
  \<open>sqrt(40)\<close> and \<open>16 / sqrt(40)\<close> are not zero, no step raises, and the result is a
  finite float.
\<close>

theorem z_stat_notebook_in_domain:
  "0 \<le> nb_n \<and>
   (\<exists>s d zv. math_sqrt nb_n = Inr (Finite s) \<and> s \<noteq> 0 \<and>
      int_truediv_float nb_sigma (Finite s) = Inr (Finite d) \<and> d \<noteq> 0 \<and>
      int_truediv_float (nb_x_bar - nb_mu) (Finite d) = Inr (Finite zv) \<and>
      nb_z = Inr (Finite zv))"
proof -
  have s: "math_sqrt nb_n = Inr (Finite (7120816245988179 / 2 ^ 50))"
    by (simp only: nb_n_def math_sqrt_40)
  have d: "int_truediv_float nb_sigma (Finite (7120816245988179 / 2 ^ 50)) =
             Inr (Finite (5696652996790543 / 2 ^ 51))"
    by (simp only: nb_sigma_def inner_quotient)
  have "nb_x_bar - nb_mu = 3" by (simp add: nb_x_bar_def nb_mu_def)
  then have z: "int_truediv_float (nb_x_bar - nb_mu) (Finite (5696652996790543 / 2 ^ 51)) =
                  Inr (Finite (2670306092245567 / 2 ^ 51))"
    by (simp only: outer_quotient)
  have nz: "(7120816245988179 / 2 ^ 50 :: rat) \<noteq> 0" "(5696652996790543 / 2 ^ 51 :: rat) \<noteq> 0"
    by simp_all
  have "0 \<le> nb_n" by (simp add: nb_n_def)
  with s d z nz nb_z_value show ?thesis by blast
qed

end
